theory Spec2Isabelle
  imports Complex_Main
begin

section \<open>Failures\<close>

text \<open>
  Every exception the program can raise is a value.  \<open>IndexError\<close>, \<open>ValueError\<close> and
  \<open>TypeError\<close> are Python's own (\<open>homes[0]\<close> on an empty list, \<open>list.remove\<close>,
  \<open>list.index\<close> and \<open>np.argmin\<close> on an empty sequence, a float where a list is
  expected).  \<open>NodeNotFound\<close> and \<open>Unreachable\<close> are the two failures of the
  shortest-path engine.
\<close>

datatype error = IndexError | ValueError | TypeError | NodeNotFound | Unreachable

section \<open>Graph store\<close>

text \<open>
  Modelled from the spec: the graph object is a \<open>networkx.Graph\<close>, a library that is not
  part of the sources.  Following the data model of the spec it holds a set of nodes and
  weighted undirected edges; the store offers the node set, neighbour iteration and weight
  lookup.  An edge makes both of its end points nodes.  Where several edges join the same
  pair the lookup yields the least weight.  Weights are real numbers: the floats of the
  program, taken as the numbers they denote and added without rounding.  Where the
  rounding of a sum matters, the additions of binary64 floats are modelled on their own
  (\<open>fadd\<close>, \<open>py_sum\<close> and \<open>float_route_weight\<close> below).
\<close>

record 'n graph =
  g_nodes :: "'n list"
  g_edges :: "('n \<times> 'n \<times> real) list"

definition node_list :: "'n graph \<Rightarrow> 'n list" where
  "node_list g = remdups (g_nodes g @ concat (map (\<lambda>(a, b, w). [a, b]) (g_edges g)))"

definition joins :: "'n \<Rightarrow> 'n \<Rightarrow> ('n \<times> 'n \<times> real) \<Rightarrow> bool" where
  "joins u v e = (case e of (a, b, w) \<Rightarrow> (a = u \<and> b = v) \<or> (a = v \<and> b = u))"

definition weights :: "'n graph \<Rightarrow> 'n \<Rightarrow> 'n \<Rightarrow> real list" where
  "weights g u v = map (\<lambda>(a, b, w). w) (filter (joins u v) (g_edges g))"

definition weight :: "'n graph \<Rightarrow> 'n \<Rightarrow> 'n \<Rightarrow> real option" where
  "weight g u v = (case weights g u v of [] \<Rightarrow> None | w # ws \<Rightarrow> Some (fold min ws w))"

definition neighbors :: "'n graph \<Rightarrow> 'n \<Rightarrow> 'n list" where
  "neighbors g u = filter (\<lambda>v. weight g u v \<noteq> None) (node_list g)"

definition nonneg_weights :: "'n graph \<Rightarrow> bool" where
  "nonneg_weights g = list_all (\<lambda>(a, b, w). 0 \<le> w) (g_edges g)"

text \<open>
  A route is a sequence of nodes; its length is the sum of the weights of its consecutive
  edges, and it has none when two consecutive nodes are not joined by an edge.
\<close>

fun route_weight :: "'n graph \<Rightarrow> 'n list \<Rightarrow> real option" where
  "route_weight g [] = Some 0"
| "route_weight g [u] = Some 0"
| "route_weight g (u # v # p) =
     (case weight g u v of
        None \<Rightarrow> None
      | Some w \<Rightarrow> (case route_weight g (v # p) of None \<Rightarrow> None | Some d \<Rightarrow> Some (w + d)))"

definition walk :: "'n graph \<Rightarrow> 'n \<Rightarrow> 'n \<Rightarrow> 'n list \<Rightarrow> bool" where
  "walk g s t p = (p \<noteq> [] \<and> hd p = s \<and> last p = t \<and> set p \<subseteq> set (node_list g)
                   \<and> route_weight g p \<noteq> None)"

section \<open>Shortest-path engine\<close>

text \<open>
  Modelled from the spec: \<open>nx.shortest_path_length\<close> and \<open>nx.shortest_path\<close> belong to the
  networkx library, which is not part of the sources.  Section 4.1 of the spec describes
  the engine as a single-source search of Dijkstra's kind: tentative distances, repeatedly
  settling the unsettled node of least tentative distance and relaxing the edges that leave
  it, keeping with each distance the path that attains it.  The search table maps a
  node to its tentative distance and path.
\<close>

type_synonym 'n table = "'n \<Rightarrow> (real \<times> 'n list) option"

definition tentative :: "'n table \<Rightarrow> 'n \<Rightarrow> real" where
  "tentative D v = (case D v of None \<Rightarrow> 0 | Some (d, p) \<Rightarrow> d)"

definition relax :: "'n graph \<Rightarrow> 'n \<Rightarrow> real \<Rightarrow> 'n list \<Rightarrow> 'n \<Rightarrow> 'n table \<Rightarrow> 'n table" where
  "relax g u d p v D =
     (case weight g u v of
        None \<Rightarrow> D
      | Some w \<Rightarrow>
          (case D v of
             None \<Rightarrow> D(v \<mapsto> (d + w, p @ [v]))
           | Some (dv, pv) \<Rightarrow> if d + w < dv then D(v \<mapsto> (d + w, p @ [v])) else D))"

definition relax_all :: "'n graph \<Rightarrow> 'n \<Rightarrow> 'n table \<Rightarrow> 'n table" where
  "relax_all g u D =
     (case D u of
        None \<Rightarrow> D
      | Some (d, p) \<Rightarrow> fold (relax g u d p) (neighbors g u) D)"

definition frontier :: "'n graph \<Rightarrow> 'n table \<Rightarrow> 'n list \<Rightarrow> 'n list" where
  "frontier g D S = filter (\<lambda>v. v \<notin> set S \<and> D v \<noteq> None) (node_list g)"

definition closer :: "'n table \<Rightarrow> 'n \<Rightarrow> 'n \<Rightarrow> 'n" where
  "closer D v best = (if tentative D v < tentative D best then v else best)"

definition extract_min :: "'n graph \<Rightarrow> 'n table \<Rightarrow> 'n list \<Rightarrow> 'n option" where
  "extract_min g D S =
     (case frontier g D S of
        [] \<Rightarrow> None
      | c # cs \<Rightarrow> Some (fold (closer D) cs c))"

lemma fold_closer_mem: "fold (closer D) cs c \<in> set (c # cs)"
  by (induction cs arbitrary: c) (auto simp: closer_def)

lemma extract_min_frontier:
  "extract_min g D S = Some u \<Longrightarrow> u \<in> set (frontier g D S)"
  using fold_closer_mem [of D]
  by (fastforce simp: extract_min_def split: list.splits)

lemma settle_shrinks:
  assumes "u \<in> set xs" and "u \<notin> set S"
  shows "length (filter (\<lambda>v. v \<notin> set (u # S)) xs) < length (filter (\<lambda>v. v \<notin> set S) xs)"
proof -
  have "filter (\<lambda>v. v \<notin> set (u # S)) xs = filter (\<lambda>v. v \<noteq> u) (filter (\<lambda>v. v \<notin> set S) xs)"
    by (auto intro: filter_cong)
  moreover have "u \<in> set (filter (\<lambda>v. v \<notin> set S) xs)"
    using assms by simp
  ultimately show ?thesis
    by (simp add: length_filter_less del: filter_filter)
qed

function dijkstra_loop :: "'n graph \<Rightarrow> 'n table \<Rightarrow> 'n list \<Rightarrow> 'n table" where
  "dijkstra_loop g D S =
     (case extract_min g D S of
        None \<Rightarrow> D
      | Some u \<Rightarrow> dijkstra_loop g (relax_all g u D) (u # S))"
  by pat_completeness auto
termination
proof (relation "measure (\<lambda>(g, D, S). length (filter (\<lambda>v. v \<notin> set S) (node_list g)))")
  show "wf (measure (\<lambda>(g, D, S). length (filter (\<lambda>v. v \<notin> set S) (node_list g))))"
    by simp
next
  fix g :: "'n graph" and D :: "'n table" and S u
  assume "extract_min g D S = Some u"
  then have "u \<in> set (frontier g D S)"
    by (rule extract_min_frontier)
  then have "u \<in> set (node_list g)" and "u \<notin> set S"
    by (auto simp: frontier_def)
  then show "((g, relax_all g u D, u # S), (g, D, S))
               \<in> measure (\<lambda>(g, D, S). length (filter (\<lambda>v. v \<notin> set S) (node_list g)))"
    using settle_shrinks [of u "node_list g" S] by simp
qed

declare dijkstra_loop.simps [simp del]

text \<open>
  Modelled from the spec: the contract \<open>shortest_path(graph, source, target)\<close> of section
  4.1.  The search starts from the table that holds the source alone, at distance 0.  The
  query fails with NodeNotFound when the source or the target is not a node and with
  Unreachable when the search has not reached the target; otherwise it returns the distance
  and the path of the target.  \<open>nx.shortest_path_length\<close> is the distance of that answer and
  \<open>nx.shortest_path\<close> its path.
\<close>

definition dijkstra :: "'n graph \<Rightarrow> 'n \<Rightarrow> 'n table" where
  "dijkstra g s = dijkstra_loop g [s \<mapsto> (0, [s])] []"

definition shortest_path :: "'n graph \<Rightarrow> 'n \<Rightarrow> 'n \<Rightarrow> error + real \<times> 'n list" where
  "shortest_path g source target =
     (if source \<notin> set (node_list g) \<or> target \<notin> set (node_list g) then Inl NodeNotFound
      else case dijkstra g source target of
             None \<Rightarrow> Inl Unreachable
           | Some (d, p) \<Rightarrow> Inr (d, p))"

definition nx_shortest_path_length :: "'n graph \<Rightarrow> 'n \<Rightarrow> 'n \<Rightarrow> error + real" where
  "nx_shortest_path_length g a b = map_sum id fst (shortest_path g a b)"

definition nx_shortest_path :: "'n graph \<Rightarrow> 'n \<Rightarrow> 'n \<Rightarrow> error + 'n list" where
  "nx_shortest_path g a b = map_sum id snd (shortest_path g a b)"

section \<open>The wrapper \<open>shortest_path_length\<close>\<close>

text \<open>
  The function returns a float when \<open>distance\<close> is true and a list of nodes otherwise; the
  two kinds of answer are the two constructors of \<open>answer\<close>.  An exception of the engine
  passes through.  The last \<open>return None\<close> of the source cannot be reached, since
  \<open>distance\<close> is either true or not.
\<close>

datatype answer = Distance real | Route "string list"

definition shortest_path_length :: "string graph \<Rightarrow> string \<Rightarrow> string \<Rightarrow> bool \<Rightarrow> error + answer" where
  "shortest_path_length network a b distance =
     (if distance then map_sum id Distance (nx_shortest_path_length network a b)
      else map_sum id Route (nx_shortest_path network a b))"

section \<open>Python lists and \<open>np.argmin\<close>\<close>

text \<open>\<open>xs.remove(x)\<close> deletes the first occurrence of \<open>x\<close> and raises ValueError without one.\<close>

definition list_remove :: "'a list \<Rightarrow> 'a \<Rightarrow> error + 'a list" where
  "list_remove xs x = (if x \<in> set xs then Inr (remove1 x xs) else Inl ValueError)"

text \<open>\<open>xs.index(x)\<close> is the position of the first occurrence, and raises ValueError without one.\<close>

fun list_index :: "'a list \<Rightarrow> 'a \<Rightarrow> error + nat" where
  "list_index [] x = Inl ValueError"
| "list_index (y # ys) x =
     (if y = x then Inr 0 else case list_index ys x of Inl e \<Rightarrow> Inl e | Inr i \<Rightarrow> Inr (Suc i))"

text \<open>\<open>xs[i:j]\<close> for indices that are not negative.\<close>

definition slice :: "'a list \<Rightarrow> nat \<Rightarrow> nat \<Rightarrow> 'a list" where
  "slice xs i j = drop i (take j xs)"

text \<open>
  \<open>np.argmin\<close> belongs to numpy, which is not part of the sources.  As its documentation
  says, it returns the position of the first occurrence of the least value: the model scans
  the sequence from the left and keeps the position of the least value seen so far,
  replacing it only by a strictly smaller one.  An empty sequence raises ValueError.
\<close>

fun argmin_scan :: "real list \<Rightarrow> nat \<Rightarrow> nat \<Rightarrow> real \<Rightarrow> nat" where
  "argmin_scan [] i best least = best"
| "argmin_scan (x # xs) i best least =
     (if x < least then argmin_scan xs (Suc i) i x else argmin_scan xs (Suc i) best least)"

definition argmin :: "real list \<Rightarrow> error + nat" where
  "argmin xs = (case xs of [] \<Rightarrow> Inl ValueError | x # ys \<Rightarrow> Inr (argmin_scan ys 1 0 x))"

section \<open>The tour builder \<open>nearest_neighbor\<close>\<close>

text \<open>
  The local variables of \<open>nearest_neighbor\<close>.  \<open>homes\<close> is the caller's list object, which
  the function changes in place.
\<close>

record nn_state =
  curr_node :: string
  homes :: "string list"
  going_back :: bool
  dist_min :: "real list"
  path_homes :: "string list"
  path_homes_full :: "string list list"

text \<open>The \<open>for\<close> loop filling \<open>all_dist\<close>: one distance query per pending home, in order.\<close>

fun all_dist :: "string graph \<Rightarrow> string \<Rightarrow> string list \<Rightarrow> error + real list" where
  "all_dist network c [] = Inr []"
| "all_dist network c (h # hs) =
     (case shortest_path_length network c h True of
        Inl e \<Rightarrow> Inl e
      | Inr (Route p) \<Rightarrow> Inl TypeError
      | Inr (Distance d) \<Rightarrow>
          (case all_dist network c hs of Inl e \<Rightarrow> Inl e | Inr ds \<Rightarrow> Inr (d # ds)))"

text \<open>
  One pass through the body of the \<open>while\<close> loop.  A failure carries the value the caller's
  list has at that moment.
\<close>

definition nn_body :: "string graph \<Rightarrow> nn_state \<Rightarrow> error \<times> string list + nn_state" where
  "nn_body network s =
     (case all_dist network (curr_node s) (homes s) of
        Inl e \<Rightarrow> Inl (e, homes s)
      | Inr ds \<Rightarrow>
     (case argmin ds of
        Inl e \<Rightarrow> Inl (e, homes s)
      | Inr min_index \<Rightarrow>
     (case shortest_path_length network (curr_node s) (homes s ! min_index) False of
        Inl e \<Rightarrow> Inl (e, homes s)
      | Inr (Distance d) \<Rightarrow> Inl (TypeError, homes s)
      | Inr (Route p) \<Rightarrow>
          (let leg = (if length (homes s) \<noteq> 1 then butlast p else p);
               node = homes s ! min_index;
               back = (going_back s = False \<and> length (homes s) = 1);
               pending = (if back then homes s @ [''Auckland Airport''] else homes s)
           in case list_remove pending node of
                Inl e \<Rightarrow> Inl (e, pending)
              | Inr rest \<Rightarrow>
                  Inr \<lparr>curr_node = node,
                       homes = rest,
                       going_back = (if back then True else going_back s),
                       dist_min = dist_min s @ [ds ! min_index],
                       path_homes = path_homes s @ [curr_node s],
                       path_homes_full = path_homes_full s @ [leg]\<rparr>))))"

definition nn_measure :: "nn_state \<Rightarrow> nat" where
  "nn_measure s = 2 * length (homes s) + (if going_back s then 0 else 3)"

lemma all_dist_length: "all_dist network c hs = Inr ds \<Longrightarrow> length ds = length hs"
  by (induction hs arbitrary: ds) (auto split: sum.splits answer.splits)

lemma argmin_scan_bound: "best < i \<Longrightarrow> argmin_scan xs i best least < i + length xs"
  by (induction xs i best least rule: argmin_scan.induct) auto

lemma argmin_bound: "argmin xs = Inr i \<Longrightarrow> i < length xs"
  using argmin_scan_bound [of 0 1]
  by (fastforce simp: argmin_def split: list.splits)

lemma nn_body_measure:
  assumes "nn_body network s = Inr s'"
  shows "nn_measure s' < nn_measure s"
proof -
  define pending where "pending = (if going_back s = False \<and> length (homes s) = 1
                        then homes s @ [''Auckland Airport''] else homes s)"
  from assms obtain ds i rest where
    ds: "all_dist network (curr_node s) (homes s) = Inr ds" and
    i: "argmin ds = Inr i" and
    rest: "list_remove pending (homes s ! i) = Inr rest" and
    s': "homes s' = rest"
        "going_back s' = (if going_back s = False \<and> length (homes s) = 1 then True else going_back s)"
    unfolding pending_def
    by (auto simp: nn_body_def Let_def split: sum.splits answer.splits)
  have "i < length (homes s)"
    using all_dist_length [OF ds] argmin_bound [OF i] by simp
  then have "homes s ! i \<in> set pending"
    by (simp add: pending_def)
  then have "Suc (length rest) = length pending"
    using rest
    by (auto simp: list_remove_def length_remove1 split: if_splits)
      (metis Suc_pred length_pos_if_in_set)
  then show ?thesis
    using s' by (auto simp: nn_measure_def pending_def split: if_splits)
qed

text \<open>The \<open>while\<close> loop: it runs the body until the caller's list is empty.\<close>

function nn_loop :: "string graph \<Rightarrow> nn_state \<Rightarrow> (error + nn_state) \<times> string list" where
  "nn_loop network s =
     (if homes s = [] then (Inr s, homes s)
      else case nn_body network s of
             Inl (e, hs) \<Rightarrow> (Inl e, hs)
           | Inr s' \<Rightarrow> nn_loop network s')"
  by pat_completeness auto
termination
  by (relation "measure (\<lambda>(network, s). nn_measure s)") (auto simp: nn_body_measure)

declare nn_loop.simps [simp del]

text \<open>
  The whole function.  The result pairs what the call returns, or the exception it raises,
  with the final value of the caller's list: \<open>(dist_min, path_homes, path_homes_full)\<close> is
  the returned triple.
\<close>

definition nearest_neighbor ::
  "string graph \<Rightarrow> string list \<Rightarrow> (error + real list \<times> string list \<times> string list list) \<times> string list" where
  "nearest_neighbor network stops =
     (case stops of
        [] \<Rightarrow> (Inl IndexError, stops)
      | first # others \<Rightarrow>
          (case list_remove stops first of
             Inl e \<Rightarrow> (Inl e, stops)
           | Inr pending \<Rightarrow>
               (let auk_airpot = first in
                case nn_loop network
                       \<lparr>curr_node = first, homes = pending, going_back = False,
                        dist_min = [], path_homes = [], path_homes_full = []\<rparr> of
                  (Inl e, hs) \<Rightarrow> (Inl e, hs)
                | (Inr s, hs) \<Rightarrow>
                    (Inr (dist_min s, path_homes s @ [auk_airpot], path_homes_full s), hs))))"

section \<open>\<open>solve_region\<close> and the region lists of \<open>main\<close>\<close>

text \<open>
  \<open>solve_region\<close> hands its list to \<open>nearest_neighbor\<close>, flattens the legs, prints the sum of
  the distances and writes the stops and the flattened path out.  The model returns the
  printed total, the saved stops and the plotted node sequence, with the final value of the
  region list.  The total is the exact sum of the distances; the sum that Python's floats
  give is \<open>py_sum\<close> below.
\<close>

definition solve_region ::
  "string graph \<Rightarrow> string list \<Rightarrow> (error + real \<times> string list \<times> string list) \<times> string list" where
  "solve_region network region =
     (case nearest_neighbor network region of
        (Inl e, hs) \<Rightarrow> (Inl e, hs)
      | (Inr (region_dists, region_path, region_path_full), hs) \<Rightarrow>
          (Inr (sum_list region_dists, region_path, concat region_path_full), hs))"

text \<open>
  \<open>main\<close> reads rows \<open>(house, suburb, region)\<close> and builds each region's list with the
  expression
  \<^verbatim>\<open>auk_airport + rest_homes[region.index(search) : n - region[::-1].index(search)]\<close>.
\<close>

definition region_homes :: "(string \<times> string \<times> string) list \<Rightarrow> string \<Rightarrow> error + string list" where
  "region_homes data search =
     (let region = map (\<lambda>(house, suburb, label). label) data;
          rest_homes = map (\<lambda>(house, suburb, label). house) data;
          auk_airport = [''Auckland Airport''];
          n = length region
      in case list_index region search of
           Inl e \<Rightarrow> Inl e
         | Inr i \<Rightarrow>
             (case list_index (rev region) search of
                Inl e \<Rightarrow> Inl e
              | Inr k \<Rightarrow> Inr (auk_airport @ slice rest_homes i (n - k))))"

section \<open>Vocabulary of the properties\<close>

text \<open>
  A list of labels is grouped when every label's occurrences are contiguous: after the run
  that starts at any position has ended, its label does not come back.
\<close>

fun grouped :: "'a list \<Rightarrow> bool" where
  "grouped [] = True"
| "grouped (x # xs) = (x \<notin> set (dropWhile (\<lambda>y. y = x) xs) \<and> grouped xs)"



section \<open>Sums of floats\<close>









section \<open>Invariants\<close>

text \<open>
  A distance is optimal for a node when no route from the source to that node is shorter.
\<close>

definition optimal :: "'n graph \<Rightarrow> 'n \<Rightarrow> 'n \<Rightarrow> real \<Rightarrow> bool" where
  "optimal g s v d =
     (\<forall>q dq. q \<noteq> [] \<and> hd q = s \<and> last q = v \<and> route_weight g q = Some dq \<longrightarrow> d \<le> dq)"

text \<open>
  Every entry of a search table is a route from the source to its node, with the length
  that the table gives.  The second form adds that the last step of the route does not
  stay at its node.
\<close>

definition walk_table :: "'n graph \<Rightarrow> 'n \<Rightarrow> 'n table \<Rightarrow> bool" where
  "walk_table g s D = (\<forall>v d p. D v = Some (d, p) \<longrightarrow> walk g s v p \<and> route_weight g p = Some d)"

definition sound_table :: "'n graph \<Rightarrow> 'n \<Rightarrow> 'n table \<Rightarrow> bool" where
  "sound_table g s D =
     (\<forall>v d p. D v = Some (d, p) \<longrightarrow>
        p \<noteq> [] \<and> hd p = s \<and> last p = v \<and> set p \<subseteq> set (node_list g)
        \<and> route_weight g p = Some d \<and> (butlast p = [] \<or> last (butlast p) \<noteq> v))"

text \<open>
  The invariant of the search: the table is sound, the source has distance 0, the settled
  nodes have optimal distances, and every edge that leaves a settled node has been relaxed.
\<close>

definition search_inv :: "'n graph \<Rightarrow> 'n \<Rightarrow> 'n table \<Rightarrow> 'n list \<Rightarrow> bool" where
  "search_inv g s D S =
     (sound_table g s D
      \<and> (\<exists>p. D s = Some (0, p))
      \<and> (\<forall>u\<in>set S. \<exists>d p. D u = Some (d, p) \<and> optimal g s u d)
      \<and> (\<forall>u\<in>set S. \<forall>v w. weight g u v = Some w \<longrightarrow>
            (\<exists>dv pv. D v = Some (dv, pv) \<and> dv \<le> tentative D u + w)))"


section \<open>Example networks\<close>

text \<open>
  The scenario of the spec: a depot, the stops \<open>A\<close> and \<open>B\<close>, and the edges depot--\<open>A\<close>
  of weight 5, depot--\<open>B\<close> of weight 9 and \<open>A\<close>--\<open>B\<close> of weight 3.  The fourth node, which
  the scenario does not name, is \<open>C\<close> and has no edge.  In \<open>scenario_graph\<close> the depot is
  called \<open>D\<close> as in the spec, in \<open>tour_graph\<close> it is called \<open>Auckland Airport\<close>.
\<close>

definition scenario_graph :: "string graph" where
  "scenario_graph =
     \<lparr>g_nodes = [''D'', ''A'', ''B'', ''C''],
      g_edges = [(''D'', ''A'', 5), (''D'', ''B'', 9), (''A'', ''B'', 3)]\<rparr>"

definition tour_graph :: "string graph" where
  "tour_graph =
     \<lparr>g_nodes = [''Auckland Airport'', ''A'', ''B'', ''C''],
      g_edges = [(''Auckland Airport'', ''A'', 5), (''Auckland Airport'', ''B'', 9),
                 (''A'', ''B'', 3)]\<rparr>"

text \<open>A network in which the depot \<open>D\<close> and the node \<open>Auckland Airport\<close> are different nodes.\<close>

definition detour_graph :: "string graph" where
  "detour_graph =
     \<lparr>g_nodes = [''D'', ''A'', ''Auckland Airport''],
      g_edges = [(''D'', ''A'', 5), (''A'', ''Auckland Airport'', 2)]\<rparr>"

text \<open>Two stops at the same distance from the depot.\<close>

definition tie_graph :: "string graph" where
  "tie_graph =
     \<lparr>g_nodes = [''Auckland Airport'', ''A'', ''B''],
      g_edges = [(''Auckland Airport'', ''A'', 5), (''Auckland Airport'', ''B'', 5),
                 (''A'', ''B'', 7)]\<rparr>"


text \<open>The first pass of the loop on \<open>tie_graph\<close> with the pending stops \<open>B\<close>, \<open>A\<close>.\<close>

definition tie_start :: nn_state where
  "tie_start =
     \<lparr>curr_node = ''Auckland Airport'', homes = [''B'', ''A''], going_back = False,
      dist_min = [], path_homes = [], path_homes_full = []\<rparr>"

definition tie_next :: nn_state where
  "tie_next =
     \<lparr>curr_node = ''B'', homes = [''A''], going_back = False,
      dist_min = [5], path_homes = [''Auckland Airport''],
      path_homes_full = [[''Auckland Airport'']]\<rparr>"

text \<open>The example rows of the spec.\<close>

definition rows3 :: "(string \<times> string \<times> string) list" where
  "rows3 = [(''h1'', ''s1'', ''R1''), (''h2'', ''s2'', ''R1''), (''h3'', ''s3'', ''R2'')]"

lemmas engine_defs =
  shortest_path_def node_list_def dijkstra_def extract_min_def frontier_def relax_all_def
  relax_def neighbors_def weight_def weights_def joins_def closer_def tentative_def
  nx_shortest_path_length_def nx_shortest_path_def shortest_path_length_def
  dijkstra_loop.simps

lemmas tour_defs =
  nearest_neighbor_def nn_body_def list_remove_def argmin_def Let_def nn_loop.simps







lemma tour_run:
  "nearest_neighbor tour_graph [''Auckland Airport'', ''A'', ''B''] =
     (Inr ([5, 3, 8],
           [''Auckland Airport'', ''A'', ''B'', ''Auckland Airport''],
           [[''Auckland Airport''], [''A'', ''B''], [''B'', ''A'', ''Auckland Airport'']]),
      [])"
  by (simp add: tour_graph_def tour_defs engine_defs)

section \<open>Properties of the selection step\<close>

lemma argmin_scan_spec:
  assumes "length pre = i" and "best < i" and "pre ! best = least"
    and "\<forall>j<i. least \<le> pre ! j" and "\<forall>j<best. least < pre ! j"
  shows "argmin_scan xs i best least < length (pre @ xs)
         \<and> (\<forall>j<length (pre @ xs). (pre @ xs) ! argmin_scan xs i best least \<le> (pre @ xs) ! j)
         \<and> (\<forall>j<argmin_scan xs i best least.
               (pre @ xs) ! argmin_scan xs i best least < (pre @ xs) ! j)"
  using assms
proof (induction xs arbitrary: pre i best least)
  case Nil
  then show ?case by simp
next
  case (Cons x xs)
  let ?pre = "pre @ [x]"
  show ?case
  proof (cases "x < least")
    case True
    have "argmin_scan xs (Suc i) i x < length (?pre @ xs)
         \<and> (\<forall>j<length (?pre @ xs). (?pre @ xs) ! argmin_scan xs (Suc i) i x \<le> (?pre @ xs) ! j)
         \<and> (\<forall>j<argmin_scan xs (Suc i) i x.
               (?pre @ xs) ! argmin_scan xs (Suc i) i x < (?pre @ xs) ! j)"
    proof (rule Cons.IH)
      show "length ?pre = Suc i" using Cons.prems by simp
      show "i < Suc i" by simp
      show "?pre ! i = x" using Cons.prems(1) by (auto simp: nth_append)
      show "\<forall>j<Suc i. x \<le> ?pre ! j"
        using Cons.prems True by (auto simp: nth_append less_Suc_eq intro: order_trans less_imp_le)
      show "\<forall>j<i. x < ?pre ! j"
        using Cons.prems True by (auto simp: nth_append intro: less_le_trans)
    qed
    then show ?thesis using True by simp
  next
    case False
    have "argmin_scan xs (Suc i) best least < length (?pre @ xs)
         \<and> (\<forall>j<length (?pre @ xs). (?pre @ xs) ! argmin_scan xs (Suc i) best least \<le> (?pre @ xs) ! j)
         \<and> (\<forall>j<argmin_scan xs (Suc i) best least.
               (?pre @ xs) ! argmin_scan xs (Suc i) best least < (?pre @ xs) ! j)"
    proof (rule Cons.IH)
      show "length ?pre = Suc i" using Cons.prems by simp
      show "best < Suc i" using Cons.prems by simp
      show "?pre ! best = least" using Cons.prems by (simp add: nth_append)
      show "\<forall>j<Suc i. least \<le> ?pre ! j"
        using Cons.prems False by (auto simp: nth_append less_Suc_eq)
      show "\<forall>j<best. least < ?pre ! j"
        using Cons.prems by (auto simp: nth_append)
    qed
    then show ?thesis using False by simp
  qed
qed

lemma argmin_first_least:
  assumes "argmin ds = Inr i"
  shows "i < length ds \<and> (\<forall>j<length ds. ds ! i \<le> ds ! j) \<and> (\<forall>j<i. ds ! i < ds ! j)"
proof -
  from assms obtain x xs where ds: "ds = x # xs" and i: "i = argmin_scan xs 1 0 x"
    by (auto simp: argmin_def split: list.splits)
  show ?thesis
    using argmin_scan_spec [of "[x]" 1 0 x xs] by (simp add: ds i)
qed

lemma all_dist_nth:
  "all_dist network c hs = Inr ds \<Longrightarrow> j < length hs \<Longrightarrow>
     shortest_path_length network c (hs ! j) True = Inr (Distance (ds ! j))"
proof (induction hs arbitrary: ds j)
  case Nil
  then show ?case by simp
next
  case (Cons h hs)
  then show ?case
    by (cases j) (auto split: sum.splits answer.splits)
qed

text \<open>
  Claim C5.  In every pass of the loop of \<open>nearest_neighbor\<close> that completes, the distances
  \<open>ds\<close> are the shortest-path distances from the current node to the pending stops, in
  pending order; the stop selected as the next current node is a pending stop whose distance
  is least, the logged distance is that least distance, and every pending stop that stands
  before the selected one is strictly farther, so among stops at the least distance the first
  in pending order is taken.  The step is a function of the network and the state, hence so
  is the tour.
\<close>

theorem nn_body_selects_nearest:
  assumes "nn_body network s = Inr s'"
  shows "\<exists>ds i. all_dist network (curr_node s) (homes s) = Inr ds
           \<and> length ds = length (homes s)
           \<and> (\<forall>j<length (homes s).
                 shortest_path_length network (curr_node s) (homes s ! j) True
                   = Inr (Distance (ds ! j)))
           \<and> i < length (homes s)
           \<and> curr_node s' = homes s ! i
           \<and> dist_min s' = dist_min s @ [ds ! i]
           \<and> (\<forall>j<length (homes s). ds ! i \<le> ds ! j)
           \<and> (\<forall>j<i. ds ! i < ds ! j)"
proof -
  from assms obtain ds i where
    ds: "all_dist network (curr_node s) (homes s) = Inr ds" and
    i: "argmin ds = Inr i" and
    s': "curr_node s' = homes s ! i" "dist_min s' = dist_min s @ [ds ! i]"
    by (auto simp: nn_body_def Let_def split: sum.splits answer.splits)
  have len: "length ds = length (homes s)"
    using ds by (rule all_dist_length)
  show ?thesis
    using ds len s' argmin_first_least [OF i] all_dist_nth [OF ds]
    by (intro exI [of _ ds] exI [of _ i]) simp
qed

text \<open>
  Witness for C5: on \<open>tie_graph\<close> the pending stops \<open>B\<close> and \<open>A\<close> are both at distance 5
  from the depot; the pass completes and selects \<open>B\<close>, the first of the two in pending order.
\<close>

lemma tie_pass: "nn_body tie_graph tie_start = Inr tie_next"
  by (simp add: tie_start_def tie_next_def tie_graph_def tour_defs engine_defs)

theorem nn_body_selects_nearest_witness:
  "nn_body tie_graph tie_start = Inr tie_next
   \<and> homes tie_start = [''B'', ''A'']
   \<and> curr_node tie_next = ''B''
   \<and> (\<exists>ds i. all_dist tie_graph (curr_node tie_start) (homes tie_start) = Inr ds
          \<and> length ds = length (homes tie_start)
          \<and> (\<forall>j<length (homes tie_start).
                shortest_path_length tie_graph (curr_node tie_start) (homes tie_start ! j) True
                  = Inr (Distance (ds ! j)))
          \<and> i < length (homes tie_start)
          \<and> curr_node tie_next = homes tie_start ! i
          \<and> dist_min tie_next = dist_min tie_start @ [ds ! i]
          \<and> (\<forall>j<length (homes tie_start). ds ! i \<le> ds ! j)
          \<and> (\<forall>j<i. ds ! i < ds ! j))"
proof -
  have "homes tie_start = [''B'', ''A'']" and "curr_node tie_next = ''B''"
    by (simp_all add: tie_start_def tie_next_def)
  with tie_pass nn_body_selects_nearest [OF tie_pass] show ?thesis
    by (intro conjI)
qed

section \<open>The caller's list\<close>

lemma nn_loop_empties:
  "nn_loop network s = (Inr s', hs) \<Longrightarrow> hs = [] \<and> homes s' = []"
proof (induction network s rule: nn_loop.induct)
  case (1 network s)
  show ?case
  proof (cases "homes s = []")
    case True
    then show ?thesis using "1.prems" by (simp add: nn_loop.simps)
  next
    case False
    then show ?thesis
      using "1.prems" "1.IH"
      by (simp add: nn_loop.simps [of network s] split: sum.splits prod.splits)
  qed
qed

text \<open>
  Claim C10.  \<open>nearest_neighbor\<close> works on the list object it is given: whenever the call
  returns normally, that list is empty afterwards.  \<open>solve_region\<close> passes its region list
  on as it is, so the region list is empty after the call as well.
\<close>

theorem nearest_neighbor_consumes_list:
  assumes "nearest_neighbor network stops = (Inr r, hs)"
  shows "hs = [] \<and> snd (solve_region network stops) = []"
proof -
  have "hs = []"
    using assms
    by (auto simp: nearest_neighbor_def Let_def split: list.splits sum.splits prod.splits
        dest: nn_loop_empties)
  then show ?thesis
    using assms by (cases r) (simp add: solve_region_def)
qed

text \<open>
  Witness for C10: the call on the scenario's network returns normally, and the list
  \<open>[Auckland Airport, A, B]\<close> it was given is empty afterwards.
\<close>

theorem nearest_neighbor_consumes_list_witness:
  "fst (nearest_neighbor tour_graph [''Auckland Airport'', ''A'', ''B'']) =
     Inr ([5, 3, 8],
          [''Auckland Airport'', ''A'', ''B'', ''Auckland Airport''],
          [[''Auckland Airport''], [''A'', ''B''], [''B'', ''A'', ''Auckland Airport'']])
   \<and> snd (nearest_neighbor tour_graph [''Auckland Airport'', ''A'', ''B'']) = []
   \<and> snd (solve_region tour_graph [''Auckland Airport'', ''A'', ''B'']) = []"
proof -
  have run: "fst (nearest_neighbor tour_graph [''Auckland Airport'', ''A'', ''B'']) =
     Inr ([5, 3, 8],
          [''Auckland Airport'', ''A'', ''B'', ''Auckland Airport''],
          [[''Auckland Airport''], [''A'', ''B''], [''B'', ''A'', ''Auckland Airport'']])"
    by (simp add: tour_run)
  then have "nearest_neighbor tour_graph [''Auckland Airport'', ''A'', ''B''] =
     (Inr ([5, 3, 8],
          [''Auckland Airport'', ''A'', ''B'', ''Auckland Airport''],
          [[''Auckland Airport''], [''A'', ''B''], [''B'', ''A'', ''Auckland Airport'']]),
      snd (nearest_neighbor tour_graph [''Auckland Airport'', ''A'', ''B'']))"
    by (metis prod.collapse)
  from nearest_neighbor_consumes_list [OF this] run show ?thesis by simp
qed

section \<open>Short stop lists\<close>

text \<open>
  Claim C6, as the code has it.  The function has no check of the length of its list.  On
  the empty list the first statement, \<open>homes[0]\<close>, raises IndexError and the list stays as
  it was.  On a list that holds only the depot the loop is not entered and the call returns
  normally: no distances, the depot as the only visited stop, no legs.
\<close>

theorem nearest_neighbor_short_lists:
  "nearest_neighbor network [] = (Inl IndexError, [])
   \<and> nearest_neighbor network [depot] = (Inr ([], [depot], []), [])"
  by (simp add: nearest_neighbor_def list_remove_def nn_loop.simps)

text \<open>
  Counterexample to C6 as stated: with the stop list \<open>[Auckland Airport]\<close> the call does not
  fail; it returns a normal triple.
\<close>

theorem nearest_neighbor_depot_only_counterexample:
  "fst (nearest_neighbor tour_graph [''Auckland Airport''])
     = Inr ([], [''Auckland Airport''], [])"
  by (simp add: nearest_neighbor_def list_remove_def nn_loop.simps)

section \<open>The scenario of the spec\<close>

text \<open>
  Claim C2, as the code has it.  With the depot named \<open>Auckland Airport\<close> the tour on the
  scenario's network visits \<open>A\<close>, then \<open>B\<close>, and returns; the legs have the lengths 5, 3
  and 8, since the shortest way back from \<open>B\<close> goes through \<open>A\<close> (3 + 5) and not along the
  edge of weight 9.  The total is 16.
\<close>

theorem scenario_tour:
  "nearest_neighbor tour_graph [''Auckland Airport'', ''A'', ''B''] =
     (Inr ([5, 3, 8],
           [''Auckland Airport'', ''A'', ''B'', ''Auckland Airport''],
           [[''Auckland Airport''], [''A'', ''B''], [''B'', ''A'', ''Auckland Airport'']]),
      [])
   \<and> fst (solve_region tour_graph [''Auckland Airport'', ''A'', ''B'']) =
       Inr (16, [''Auckland Airport'', ''A'', ''B'', ''Auckland Airport''],
            [''Auckland Airport'', ''A'', ''B'', ''B'', ''A'', ''Auckland Airport''])"
  by (simp add: solve_region_def tour_run)

text \<open>
  Counterexample to C2 as stated: with the depot named \<open>D\<close> the call does not return the
  triple of the claim, it fails with NodeNotFound (the return leg is sought to the node
  \<open>Auckland Airport\<close>, which the network does not have); and the shortest-path distance
  from \<open>B\<close> back to \<open>D\<close> is 8, not 9.
\<close>

theorem scenario_counterexample:
  "fst (nearest_neighbor scenario_graph [''D'', ''A'', ''B'']) = Inl NodeNotFound
   \<and> nx_shortest_path_length scenario_graph ''B'' ''D'' = Inr 8"
  by (simp add: scenario_graph_def tour_defs engine_defs)

section \<open>The return leg and the seams of the logged path\<close>

text \<open>
  Claim C1 at a failing input.  On \<open>detour_graph\<close> with the stop list \<open>[D, A]\<close> the call
  returns normally; the visited stops end with the depot \<open>D\<close>, but the last leg is the
  path from \<open>A\<close> to \<open>Auckland Airport\<close> and its length 2 is what is logged: the entry put
  back into the list for the return is the literal \<open>'Auckland Airport'\<close>, not the saved
  first element.
\<close>

theorem return_leg_misses_depot:
  "nearest_neighbor detour_graph [''D'', ''A''] =
     (Inr ([5, 2], [''D'', ''A'', ''D''], [[''D'', ''A''], [''A'', ''Auckland Airport'']]), [])"
  by (simp add: detour_graph_def tour_defs engine_defs)

text \<open>
  Claim C4 at a failing input.  On the scenario's network the leg from \<open>A\<close> to \<open>B\<close> is
  logged in full although the return leg follows it, so the flattened path that
  \<open>solve_region\<close> plots has \<open>B\<close> twice at that seam.
\<close>

theorem last_stop_logged_twice:
  "(case fst (nearest_neighbor tour_graph [''Auckland Airport'', ''A'', ''B'']) of
      Inl e \<Rightarrow> False
    | Inr (ds, vs, legs) \<Rightarrow>
        legs = [[''Auckland Airport''], [''A'', ''B''], [''B'', ''A'', ''Auckland Airport'']]
        \<and> concat legs = [''Auckland Airport'', ''A'', ''B'', ''B'', ''A'', ''Auckland Airport''])"
  by (simp add: tour_run)

section \<open>Region lists\<close>

lemma list_index_absent: "x \<notin> set xs \<Longrightarrow> list_index xs x = Inl ValueError"
  by (induction xs) auto

lemma list_index_first: "x \<notin> set pre \<Longrightarrow> list_index (pre @ x # post) x = Inr (length pre)"
  by (induction pre) auto



lemma grouped_run:
  assumes "grouped ls" and "x \<in> set ls"
  shows "\<exists>pre m post. ls = pre @ replicate (Suc m) x @ post \<and> x \<notin> set pre \<and> x \<notin> set post"
  using assms
proof (induction ls)
  case Nil
  then show ?case by simp
next
  case (Cons y ys)
  show ?case
  proof (cases "y = x")
    case True
    let ?run = "takeWhile (\<lambda>z. z = x) ys"
    let ?post = "dropWhile (\<lambda>z. z = x) ys"
    have "replicate (length ?run) x = ?run"
      by (rule replicate_length_same) (auto dest: set_takeWhileD)
    then obtain m where m: "?run = replicate m x"
      by metis
    have "ys = ?run @ ?post"
      by simp
    then have "ys = replicate m x @ ?post"
      unfolding m .
    then have "y # ys = [] @ replicate (Suc m) x @ ?post"
      using True by simp
    moreover have "x \<notin> set ?post"
      using Cons.prems(1) True by simp
    moreover have "x \<notin> set []"
      by simp
    ultimately show ?thesis
      by blast
  next
    case False
    then have "x \<in> set ys" and "grouped ys"
      using Cons.prems by auto
    then obtain pre m post where
      "ys = pre @ replicate (Suc m) x @ post" "x \<notin> set pre" "x \<notin> set post"
      using Cons.IH by blast
    then have "y # ys = (y # pre) @ replicate (Suc m) x @ post \<and> x \<notin> set (y # pre) \<and> x \<notin> set post"
      using False by simp
    then show ?thesis by blast
  qed
qed




lemma run_rows:
  assumes "map f rows = pre @ replicate (Suc m) x @ post" and "x \<notin> set pre" and "x \<notin> set post"
  shows "slice (map h rows) (length pre) (length (map f rows) - length post)
          = map h (filter (\<lambda>r. f r = x) rows)"
proof -
  from assms(1) have "\<exists>us vs. rows = us @ vs \<and> pre = map f us
                        \<and> replicate (Suc m) x @ post = map f vs"
    by (simp only: map_eq_append_conv)
  then obtain r1 r23 where
    a: "rows = r1 @ r23" "pre = map f r1" "replicate (Suc m) x @ post = map f r23"
    by blast
  from a(3) have "\<exists>us vs. r23 = us @ vs \<and> replicate (Suc m) x = map f us \<and> post = map f vs"
    by (simp only: append_eq_map_conv)
  then obtain r2 r3 where
    b: "r23 = r2 @ r3" "replicate (Suc m) x = map f r2" "post = map f r3"
    by blast
  have rows: "rows = r1 @ r2 @ r3"
    using a(1) b(1) by simp
  have "\<forall>r\<in>set r1. f r \<noteq> x"
    using assms(2) a(2) by auto
  then have f1: "filter (\<lambda>r. f r = x) r1 = []"
    by (simp add: filter_empty_conv)
  have "\<forall>r\<in>set r3. f r \<noteq> x"
    using assms(3) b(3) by auto
  then have f3: "filter (\<lambda>r. f r = x) r3 = []"
    by (simp add: filter_empty_conv)
  have "\<forall>r\<in>set r2. f r = x"
  proof
    fix r assume "r \<in> set r2"
    then have "f r \<in> set (map f r2)" by simp
    then show "f r = x" unfolding b(2) [symmetric] by auto
  qed
  then have f2: "filter (\<lambda>r. f r = x) r2 = r2"
    by simp
  have flt: "filter (\<lambda>r. f r = x) rows = r2"
    unfolding rows by (simp add: f1 f2 f3)
  have "slice (map h rows) (length r1) (length rows - length r3) = map h r2"
    unfolding rows by (simp add: slice_def)
  then show ?thesis
    unfolding flt a(2) b(3) by simp
qed

text \<open>
  Claim C8.  When the region labels of the rows are grouped, the list built for a label that
  occurs is the depot followed by the houses of exactly the rows carrying that label, in
  their original order.  For a label that occurs nowhere the first \<open>region.index(search)\<close>
  raises ValueError, which is the failure the spec names RegionNotFound.
\<close>

theorem region_homes_grouped:
  assumes "grouped (map (\<lambda>(house, suburb, label). label) data)"
  shows "(search \<in> set (map (\<lambda>(house, suburb, label). label) data) \<longrightarrow>
            region_homes data search
              = Inr (''Auckland Airport''
                     # map (\<lambda>(house, suburb, label). house)
                         (filter (\<lambda>(house, suburb, label). label = search) data)))
         \<and> (search \<notin> set (map (\<lambda>(house, suburb, label). label) data) \<longrightarrow>
              region_homes data search = Inl ValueError)"
proof (intro conjI impI)
  let ?lab = "\<lambda>(house :: string, suburb :: string, label :: string). label"
  let ?hse = "\<lambda>(house :: string, suburb :: string, label :: string). house"
  assume mem: "search \<in> set (map ?lab data)"
  obtain pre m post where
    run: "map ?lab data = pre @ replicate (Suc m) search @ post"
      "search \<notin> set pre" "search \<notin> set post"
    using grouped_run [OF assms mem] by (elim exE conjE)
  have i: "list_index (map ?lab data) search = Inr (length pre)"
    using run(2) list_index_first [of search pre "replicate m search @ post"]
    by (simp add: run(1))
  have "rev (map ?lab data) = rev post @ search # (replicate m search @ rev pre)"
    unfolding run(1) by (simp add: replicate_append_same)
  then have k: "list_index (rev (map ?lab data)) search = Inr (length post)"
    using run(3) list_index_first [of search "rev post" "replicate m search @ rev pre"]
    by simp
  have flt: "filter (\<lambda>(house, suburb, label). label = search) data
              = filter (\<lambda>r. ?lab r = search) data"
    by (rule filter_cong) auto
  have "region_homes data search
          = Inr ([''Auckland Airport'']
                 @ slice (map ?hse data) (length pre) (length (map ?lab data) - length post))"
    unfolding region_homes_def Let_def i k by simp
  also have "\<dots> = Inr ([''Auckland Airport''] @ map ?hse (filter (\<lambda>r. ?lab r = search) data))"
    unfolding run_rows [OF run, of ?hse] ..
  finally show "region_homes data search
              = Inr (''Auckland Airport'' # map ?hse (filter (\<lambda>(house, suburb, label). label = search) data))"
    unfolding flt by simp
next
  assume "search \<notin> set (map (\<lambda>(house, suburb, label). label) data)"
  then show "region_homes data search = Inl ValueError"
    by (simp add: region_homes_def Let_def list_index_absent)
qed

text \<open>
  Witness for C8: the rows \<open>(h1, R1), (h2, R1), (h3, R2)\<close> of the spec's example.
\<close>

theorem region_homes_grouped_witness: "grouped (map (\<lambda>(house, suburb, label). label) rows3)
  \<and> region_homes rows3 ''R1'' = Inr [''Auckland Airport'', ''h1'', ''h2'']
  \<and> region_homes rows3 ''R2'' = Inr [''Auckland Airport'', ''h3'']
  \<and> region_homes rows3 ''R3'' = Inl ValueError"
proof -
  have g: "grouped (map (\<lambda>(house, suburb, label). label) rows3)"
    by (simp add: rows3_def)
  have labels: "set (map (\<lambda>(house, suburb, label). label) rows3) = {''R1'', ''R2''}"
    by (auto simp: rows3_def)
  have r1: "region_homes rows3 ''R1'' = Inr [''Auckland Airport'', ''h1'', ''h2'']"
    using region_homes_grouped [OF g, of "''R1''"] unfolding labels by (simp add: rows3_def)
  have r2: "region_homes rows3 ''R2'' = Inr [''Auckland Airport'', ''h3'']"
    using region_homes_grouped [OF g, of "''R2''"] unfolding labels by (simp add: rows3_def)
  have r3: "region_homes rows3 ''R3'' = Inl ValueError"
    using region_homes_grouped [OF g, of "''R3''"] unfolding labels by simp
  from g r1 r2 r3 show ?thesis by (intro conjI)
qed

section \<open>Correctness of the shortest-path engine\<close>

lemma joins_sym: "joins u v e = joins v u e"
  by (auto simp: joins_def split: prod.splits)

lemma weight_sym: "weight g u v = weight g v u"
proof -
  have "joins u v = joins v u"
    by (rule ext) (rule joins_sym)
  then show ?thesis
    by (simp add: weight_def weights_def)
qed

lemma fold_min_mem: "fold min ws (w :: real) \<in> set (w # ws)"
  by (induction ws arbitrary: w) (auto simp: min_def)

lemma weight_in_weights: "weight g u v = Some w \<Longrightarrow> w \<in> set (weights g u v)"
  using fold_min_mem
  by (fastforce simp: weight_def split: list.splits)

lemma weights_edge:
  "w \<in> set (weights g u v) \<Longrightarrow> \<exists>a b. (a, b, w) \<in> set (g_edges g) \<and> joins u v (a, b, w)"
  by (auto simp: weights_def)

lemma weight_edge:
  assumes "weight g u v = Some w"
  shows "\<exists>a b. (a, b, w) \<in> set (g_edges g) \<and> joins u v (a, b, w)"
  using weights_edge [OF weight_in_weights [OF assms]] .

lemma edge_nodes:
  "(a, b, w) \<in> set (g_edges g) \<Longrightarrow> a \<in> set (node_list g) \<and> b \<in> set (node_list g)"
  by (force simp: node_list_def)

lemma weight_nodes:
  assumes "weight g u v = Some w"
  shows "u \<in> set (node_list g) \<and> v \<in> set (node_list g)"
proof -
  from weight_edge [OF assms] obtain a b where
    e: "(a, b, w) \<in> set (g_edges g)" and j: "joins u v (a, b, w)"
    by blast
  from edge_nodes [OF e] j show ?thesis
    by (auto simp: joins_def)
qed

lemma weight_nonneg:
  assumes "nonneg_weights g" and "weight g u v = Some w"
  shows "0 \<le> w"
proof -
  from weight_edge [OF assms(2)] obtain a b where "(a, b, w) \<in> set (g_edges g)"
    by blast
  with assms(1) show ?thesis
    by (auto simp: nonneg_weights_def list_all_iff)
qed

lemma neighbors_iff: "v \<in> set (neighbors g u) \<longleftrightarrow> (\<exists>w. weight g u v = Some w)"
  using weight_nodes [of g u v] by (auto simp: neighbors_def)

lemma route_weight_nonneg:
  "nonneg_weights g \<Longrightarrow> route_weight g p = Some d \<Longrightarrow> 0 \<le> d"
proof (induction g p arbitrary: d rule: route_weight.induct)
  case (3 g u v p)
  from "3.prems"(2) obtain w d' where
    w: "weight g u v = Some w" and d': "route_weight g (v # p) = Some d'" and d: "d = w + d'"
    by (auto split: option.splits)
  have "0 \<le> w" using "3.prems"(1) w by (rule weight_nonneg)
  moreover have "0 \<le> d'" using "3.IH" [OF w "3.prems"(1) d'] .
  ultimately show ?case using d by simp
qed simp_all

lemma route_weight_snoc:
  assumes "p \<noteq> []" and "route_weight g p = Some d" and "weight g (last p) v = Some w"
  shows "route_weight g (p @ [v]) = Some (d + w)"
  using assms
proof (induction g p arbitrary: d rule: route_weight.induct)
  case (3 g u x p)
  from "3.prems"(2) obtain w1 d1 where
    w1: "weight g u x = Some w1" and d1: "route_weight g (x # p) = Some d1" and d: "d = w1 + d1"
    by (auto split: option.splits)
  have "route_weight g ((x # p) @ [v]) = Some (d1 + w)"
    using "3.IH" [OF w1 _ d1] "3.prems"(3) by simp
  then show ?case using w1 d by simp
qed simp_all


lemma route_weight_split:
  assumes "route_weight g (p @ x # y # q) = Some d"
  shows "\<exists>d1 w d2. route_weight g (p @ [x]) = Some d1 \<and> weight g x y = Some w
           \<and> route_weight g (y # q) = Some d2 \<and> d = d1 + w + d2"
  using assms
proof (induction p arbitrary: d)
  case Nil
  then show ?case by (auto split: option.splits)
next
  case (Cons z p)
  obtain z' r where r: "p @ x # y # q = z' # r"
    by (cases p) auto
  from Cons.prems obtain w0 d0 where
    w0: "weight g z z' = Some w0" and d0: "route_weight g (p @ x # y # q) = Some d0"
    and d: "d = w0 + d0"
    by (auto simp: r split: option.splits)
  from Cons.IH [OF d0] obtain d1 w d2 where
    ih: "route_weight g (p @ [x]) = Some d1" "weight g x y = Some w"
      "route_weight g (y # q) = Some d2" "d0 = d1 + w + d2"
    by blast
  have "hd (p @ [x]) = z'"
    using r by (cases p) auto
  then obtain r' where "p @ [x] = z' # r'"
    by (cases "p @ [x]") auto
  then have "route_weight g ((z # p) @ [x]) = Some (w0 + d1)"
    using w0 ih(1) by simp
  with ih d show ?case
    by (intro exI [of _ "w0 + d1"] exI [of _ w] exI [of _ d2]) simp
qed

lemma crossing:
  assumes "q \<noteq> []" and "hd q \<in> A" and "last q \<notin> A"
  shows "\<exists>q1 x y q2. q = q1 @ x # y # q2 \<and> x \<in> A \<and> y \<notin> A"
  using assms
proof (induction q)
  case Nil
  then show ?case by simp
next
  case (Cons a q)
  show ?case
  proof (cases q)
    case Nil
    then show ?thesis using Cons.prems by simp
  next
    case (Cons b r)
    show ?thesis
    proof (cases "b \<in> A")
      case True
      then obtain q1 x y q2 where "q = q1 @ x # y # q2" "x \<in> A" "y \<notin> A"
        using Cons.IH Cons.prems Cons by auto
      then have "a # q = (a # q1) @ x # y # q2 \<and> x \<in> A \<and> y \<notin> A"
        by simp
      then show ?thesis by blast
    next
      case False
      then have "a # q = [] @ a # b # r \<and> a \<in> A \<and> b \<notin> A"
        using Cons Cons.prems by simp
      then show ?thesis by blast
    qed
  qed
qed

subsection \<open>Relaxation and the choice of the next node\<close>

lemma relax_cases:
  "relax g u d p v D x = D x
   \<or> (x = v \<and> (\<exists>w. weight g u v = Some w \<and> relax g u d p v D x = Some (d + w, p @ [v])
         \<and> (\<forall>dx px. D x = Some (dx, px) \<longrightarrow> d + w < dx)))"
  by (auto simp: relax_def split: option.splits)

lemma relax_reaches:
  "weight g u v = Some w \<Longrightarrow> \<exists>dv pv. relax g u d p v D v = Some (dv, pv) \<and> dv \<le> d + w"
  by (auto simp: relax_def split: option.splits)

lemma fold_relax_cases:
  "fold (relax g u d p) vs D x = D x
   \<or> (\<exists>w. weight g u x = Some w \<and> fold (relax g u d p) vs D x = Some (d + w, p @ [x])
         \<and> (\<forall>dx px. D x = Some (dx, px) \<longrightarrow> d + w < dx))"
proof (induction vs arbitrary: D)
  case Nil
  then show ?case by simp
next
  case (Cons v vs)
  let ?D = "relax g u d p v D"
  from Cons.IH [of ?D] consider
    (same) "fold (relax g u d p) vs ?D x = ?D x"
    | (new) w where "weight g u x = Some w"
        "fold (relax g u d p) vs ?D x = Some (d + w, p @ [x])"
        "\<forall>dx px. ?D x = Some (dx, px) \<longrightarrow> d + w < dx"
    by blast
  then show ?case
  proof cases
    case same
    with relax_cases [of g u d p v D x] show ?thesis
      by auto
  next
    case new
    from relax_cases [of g u d p v D x] show ?thesis
    proof
      assume "?D x = D x"
      with new show ?thesis by simp
    next
      assume "x = v \<and> (\<exists>w. weight g u v = Some w \<and> ?D x = Some (d + w, p @ [v])
         \<and> (\<forall>dx px. D x = Some (dx, px) \<longrightarrow> d + w < dx))"
      then have "?D x = Some (d + w, p @ [x])"
        using new(1) by auto
      with new(3) show ?thesis by simp
    qed
  qed
qed

lemma fold_relax_improves:
  assumes "D x = Some (dx, px)"
  shows "\<exists>dx' px'. fold (relax g u d p) vs D x = Some (dx', px') \<and> dx' \<le> dx"
  using fold_relax_cases [of g u d p vs D x] assms by auto

lemma fold_relax_reaches:
  assumes "v \<in> set vs" and "weight g u v = Some w"
  shows "\<exists>dv pv. fold (relax g u d p) vs D v = Some (dv, pv) \<and> dv \<le> d + w"
  using assms(1)
proof (induction vs arbitrary: D)
  case Nil
  then show ?case by simp
next
  case (Cons a vs)
  show ?case
  proof (cases "a = v")
    case True
    from relax_reaches [OF assms(2), of d p D] obtain dv pv where
      dv: "relax g u d p v D v = Some (dv, pv)" "dv \<le> d + w"
      by blast
    from fold_relax_improves [of "relax g u d p v D" v dv pv g u d p vs, OF dv(1)] obtain dv' pv' where
      "fold (relax g u d p) vs (relax g u d p v D) v = Some (dv', pv')" "dv' \<le> dv"
      by blast
    with dv(2) True show ?thesis
      by (intro exI [of _ dv'] exI [of _ pv']) simp
  next
    case False
    then have "v \<in> set vs" using Cons.prems by simp
    from Cons.IH [OF this, of "relax g u d p a D"] show ?thesis by simp
  qed
qed

lemma fold_closer_least:
  "\<forall>v\<in>set (c # cs). tentative D (fold (closer D) cs c) \<le> tentative D v"
proof (induction cs arbitrary: c)
  case Nil
  then show ?case by simp
next
  case (Cons a cs)
  have mono: "tentative D (closer D a c) \<le> tentative D a \<and> tentative D (closer D a c) \<le> tentative D c"
    by (simp add: closer_def)
  from Cons.IH [of "closer D a c"]
  have ih: "\<forall>v\<in>set (closer D a c # cs). tentative D (fold (closer D) cs (closer D a c)) \<le> tentative D v" .
  then have "tentative D (fold (closer D) cs (closer D a c)) \<le> tentative D (closer D a c)"
    by simp
  with mono ih show ?case
    by auto
qed

lemma extract_min_least:
  assumes "extract_min g D S = Some u" and "v \<in> set (frontier g D S)"
  shows "tentative D u \<le> tentative D v"
proof -
  from assms(1) obtain c cs where
    f: "frontier g D S = c # cs" and u: "u = fold (closer D) cs c"
    by (auto simp: extract_min_def split: list.splits)
  from fold_closer_least [of c cs D] assms(2) show ?thesis
    unfolding f u by blast
qed

subsection \<open>The invariant of the search\<close>

lemma sound_tableD:
  assumes "sound_table g s D" and "D v = Some (d, p)"
  shows "p \<noteq> []" and "hd p = s" and "last p = v" and "set p \<subseteq> set (node_list g)"
    and "route_weight g p = Some d" and "butlast p = [] \<or> last (butlast p) \<noteq> v"
    and "v \<in> set (node_list g)"
proof -
  from assms show a: "p \<noteq> []" and "hd p = s" and b: "last p = v"
    and c: "set p \<subseteq> set (node_list g)"
    and "route_weight g p = Some d" and "butlast p = [] \<or> last (butlast p) \<noteq> v"
    unfolding sound_table_def by blast+
  from a b have "v \<in> set p" by (metis last_in_set)
  with c show "v \<in> set (node_list g)" by blast
qed

lemma tentative_Some: "D v = Some (d, p) \<Longrightarrow> tentative D v = d"
  by (simp add: tentative_def)

lemma settle_optimal:
  assumes nonneg: "nonneg_weights g" and inv: "search_inv g s D S"
    and u: "extract_min g D S = Some u" and Du: "D u = Some (d, p)"
  shows "optimal g s u d"
  unfolding optimal_def
proof (intro allI impI)
  fix q dq
  assume q: "q \<noteq> [] \<and> hd q = s \<and> last q = u \<and> route_weight g q = Some dq"
  from inv have sound: "sound_table g s D"
    and src: "\<exists>p. D s = Some (0, p)"
    and opt: "\<forall>x\<in>set S. \<exists>d p. D x = Some (d, p) \<and> optimal g s x d"
    and rel: "\<forall>x\<in>set S. \<forall>v w. weight g x v = Some w \<longrightarrow>
            (\<exists>dv pv. D v = Some (dv, pv) \<and> dv \<le> tentative D x + w)"
    unfolding search_inv_def by blast+
  from extract_min_frontier [OF u] have uS: "u \<notin> set S"
    by (simp add: frontier_def)
  have tu: "tentative D u = d"
    using Du by (simp add: tentative_def)
  from nonneg q have dq0: "0 \<le> dq"
    using route_weight_nonneg by blast
  show "d \<le> dq"
  proof (cases "s \<in> set S")
    case False
    from src obtain p0 where p0: "D s = Some (0, p0)" by blast
    from sound_tableD(7) [OF sound p0] have "s \<in> set (node_list g)" .
    with False p0 have "s \<in> set (frontier g D S)"
      by (simp add: frontier_def)
    moreover have "tentative D s = 0"
      using p0 by (simp add: tentative_def)
    ultimately have "d \<le> 0"
      using extract_min_least [OF u] tu by fastforce
    with dq0 show ?thesis by simp
  next
    case True
    with q uS have "\<exists>q1 x y q2. q = q1 @ x # y # q2 \<and> x \<in> set S \<and> y \<notin> set S"
      by (intro crossing) auto
    then obtain q1 x y q2 where
      split: "q = q1 @ x # y # q2" and x: "x \<in> set S" and y: "y \<notin> set S"
      by blast
    from q split have "route_weight g (q1 @ x # y # q2) = Some dq" by simp
    from route_weight_split [OF this] obtain d1 w d2 where
      d1: "route_weight g (q1 @ [x]) = Some d1" and w: "weight g x y = Some w"
      and d2: "route_weight g (y # q2) = Some d2" and dq: "dq = d1 + w + d2"
      by blast
    have "hd (q1 @ [x]) = hd q"
      unfolding split by (cases q1) simp_all
    with q have hd1: "hd (q1 @ [x]) = s" by simp
    from opt x obtain dx px where Dx: "D x = Some (dx, px)" and ox: "optimal g s x dx"
      by blast
    from ox d1 hd1 have le1: "dx \<le> d1"
      unfolding optimal_def by (metis last_snoc snoc_eq_iff_butlast)
    from rel x w obtain dy py where Dy: "D y = Some (dy, py)" and le2: "dy \<le> tentative D x + w"
      by blast
    from weight_nodes [OF w] have "y \<in> set (node_list g)" by simp
    with y Dy have "y \<in> set (frontier g D S)"
      by (simp add: frontier_def)
    moreover have "tentative D y = dy"
      using Dy by (simp add: tentative_def)
    ultimately have le3: "d \<le> dy"
      using extract_min_least [OF u] tu by fastforce
    from nonneg d2 have "0 \<le> d2"
      by (rule route_weight_nonneg)
    moreover have "tentative D x = dx"
      using Dx by (simp add: tentative_def)
    ultimately show ?thesis
      using le1 le2 le3 dq by simp
  qed
qed

lemma settle_keeps_inv:
  assumes nonneg: "nonneg_weights g" and inv: "search_inv g s D S"
    and u: "extract_min g D S = Some u"
  shows "search_inv g s (relax_all g u D) (u # S)"
proof -
  from inv have sound: "sound_table g s D"
    and src: "\<exists>p. D s = Some (0, p)"
    and opt: "\<forall>x\<in>set S. \<exists>d p. D x = Some (d, p) \<and> optimal g s x d"
    and rel: "\<forall>x\<in>set S. \<forall>v w. weight g x v = Some w \<longrightarrow>
            (\<exists>dv pv. D v = Some (dv, pv) \<and> dv \<le> tentative D x + w)"
    unfolding search_inv_def by blast+
  from extract_min_frontier [OF u] obtain d p where Du: "D u = Some (d, p)"
    by (auto simp: frontier_def)
  define D' where "D' = fold (relax g u d p) (neighbors g u) D"
  have D': "relax_all g u D = D'"
    by (simp add: relax_all_def Du D'_def)
  note pu = sound_tableD [OF sound Du]
  have opt_u: "optimal g s u d"
    using nonneg inv u Du by (rule settle_optimal)
  have cases: "D' x = D x
     \<or> (\<exists>w. weight g u x = Some w \<and> D' x = Some (d + w, p @ [x])
           \<and> (\<forall>dx px. D x = Some (dx, px) \<longrightarrow> d + w < dx))" for x
    unfolding D'_def by (rule fold_relax_cases)
  have keep_u: "D' u = Some (d, p)"
  proof -
    from cases [of u] show ?thesis
    proof
      assume "D' u = D u"
      then show ?thesis by (simp add: Du)
    next
      assume "\<exists>w. weight g u u = Some w \<and> D' u = Some (d + w, p @ [u])
           \<and> (\<forall>dx px. D u = Some (dx, px) \<longrightarrow> d + w < dx)"
      then obtain w where "weight g u u = Some w" "d + w < d"
        using Du by blast
      with weight_nonneg [OF nonneg] have False by fastforce
      then show ?thesis ..
    qed
  qed
  have sound': "sound_table g s D'"
    unfolding sound_table_def
  proof (intro allI impI)
    fix x dx px
    assume e: "D' x = Some (dx, px)"
    from cases [of x]
    show "px \<noteq> [] \<and> hd px = s \<and> last px = x \<and> set px \<subseteq> set (node_list g)
          \<and> route_weight g px = Some dx \<and> (butlast px = [] \<or> last (butlast px) \<noteq> x)"
    proof
      assume "D' x = D x"
      with e have "D x = Some (dx, px)" by simp
      from sound_tableD [OF sound this] show ?thesis by simp
    next
      assume "\<exists>w. weight g u x = Some w \<and> D' x = Some (d + w, p @ [x])
           \<and> (\<forall>dx px. D x = Some (dx, px) \<longrightarrow> d + w < dx)"
      then obtain w where w: "weight g u x = Some w" and n: "D' x = Some (d + w, p @ [x])"
        by blast
      from n e have dx: "dx = d + w" and px: "px = p @ [x]" by simp_all
      have "x \<noteq> u"
      proof
        assume "x = u"
        with n keep_u show False by simp
      qed
      moreover have "route_weight g (p @ [x]) = Some (d + w)"
        using pu(1) pu(5) w pu(3) by (intro route_weight_snoc) simp_all
      moreover have "x \<in> set (node_list g)"
        using weight_nodes [OF w] by simp
      ultimately show ?thesis
        using pu by (simp add: dx px)
    qed
  qed
  have improves: "\<exists>dx' px'. D' x = Some (dx', px') \<and> dx' \<le> dx" if "D x = Some (dx, px)" for x dx px
    using cases [of x] that by auto
  have fixed: "\<exists>px'. D' x = Some (dx, px')" if "D x = Some (dx, px)" and "optimal g s x dx" for x dx px
  proof -
    from improves [OF that(1)] obtain dx' px' where e: "D' x = Some (dx', px')" and le: "dx' \<le> dx"
      by blast
    note w = sound_tableD [OF sound' e]
    from that(2) w(1) w(2) w(3) w(5) have "dx \<le> dx'"
      unfolding optimal_def by blast
    with le e show ?thesis by simp
  qed
  have src': "\<exists>p. D' s = Some (0, p)"
  proof -
    from src obtain p0 where p0: "D s = Some (0, p0)" by blast
    from improves [OF p0] obtain d0 p0' where e: "D' s = Some (d0, p0')" and le: "d0 \<le> 0"
      by blast
    from route_weight_nonneg [OF nonneg sound_tableD(5) [OF sound' e]] le e show ?thesis
      by simp
  qed
  have opt': "\<forall>x\<in>set (u # S). \<exists>d p. D' x = Some (d, p) \<and> optimal g s x d"
  proof
    fix x assume "x \<in> set (u # S)"
    then consider "x = u" | "x \<in> set S" by auto
    then show "\<exists>d p. D' x = Some (d, p) \<and> optimal g s x d"
    proof cases
      case 1
      with keep_u opt_u show ?thesis by blast
    next
      case 2
      with opt obtain dx px where "D x = Some (dx, px)" "optimal g s x dx" by blast
      with fixed [of x dx px] show ?thesis by blast
    qed
  qed
  have rel': "\<forall>x\<in>set (u # S). \<forall>v w. weight g x v = Some w \<longrightarrow>
            (\<exists>dv pv. D' v = Some (dv, pv) \<and> dv \<le> tentative D' x + w)"
  proof (intro ballI allI impI)
    fix x v w assume x: "x \<in> set (u # S)" and w: "weight g x v = Some w"
    from x consider "x = u" | "x \<in> set S" by auto
    then show "\<exists>dv pv. D' v = Some (dv, pv) \<and> dv \<le> tentative D' x + w"
    proof cases
      case 1
      have wu: "weight g u v = Some w"
        using w 1 by simp
      then have "v \<in> set (neighbors g u)"
        by (auto simp: neighbors_iff)
      then have "\<exists>dv pv. fold (relax g u d p) (neighbors g u) D v = Some (dv, pv) \<and> dv \<le> d + w"
        using wu by (rule fold_relax_reaches)
      then have "\<exists>dv pv. D' v = Some (dv, pv) \<and> dv \<le> d + w"
        unfolding D'_def .
      moreover have "tentative D' x = d"
        using keep_u 1 by (simp add: tentative_def)
      ultimately show ?thesis by simp
    next
      case 2
      with opt obtain dx px where Dx: "D x = Some (dx, px)" and ox: "optimal g s x dx" by blast
      from fixed [OF Dx ox] have tx': "tentative D' x = dx"
        by (auto simp: tentative_def)
      have tx: "tentative D x = dx"
        using Dx by (simp add: tentative_def)
      from rel 2 w obtain dv pv where Dv: "D v = Some (dv, pv)" and le: "dv \<le> tentative D x + w"
        by blast
      from improves [OF Dv] obtain dv' pv' where "D' v = Some (dv', pv')" "dv' \<le> dv"
        by blast
      with le tx tx' show ?thesis by auto
    qed
  qed
  show ?thesis
    unfolding D' search_inv_def using sound' src' opt' rel' by blast
qed

lemma search_inv_start:
  assumes "s \<in> set (node_list g)"
  shows "search_inv g s [s \<mapsto> (0, [s])] []"
  using assms by (auto simp: search_inv_def sound_table_def split: if_splits)

lemma dijkstra_loop_inv:
  assumes "nonneg_weights g" and "search_inv g s D S"
  shows "\<exists>S'. search_inv g s (dijkstra_loop g D S) S'
               \<and> extract_min g (dijkstra_loop g D S) S' = None"
  using assms
proof (induction g D S rule: dijkstra_loop.induct)
  case (1 g D S)
  show ?case
  proof (cases "extract_min g D S")
    case None
    then have "dijkstra_loop g D S = D"
      by (simp add: dijkstra_loop.simps [of g D S])
    with None "1.prems" show ?thesis by auto
  next
    case (Some u)
    then have eq: "dijkstra_loop g D S = dijkstra_loop g (relax_all g u D) (u # S)"
      by (simp add: dijkstra_loop.simps [of g D S])
    from settle_keeps_inv [OF "1.prems" Some]
    have "search_inv g s (relax_all g u D) (u # S)" .
    from "1.IH" [OF Some "1.prems"(1) this] show ?thesis
      unfolding eq .
  qed
qed

lemma extract_min_None: "extract_min g D S = None \<longleftrightarrow> frontier g D S = []"
  by (simp add: extract_min_def split: list.splits)

text \<open>What the finished search table holds.\<close>

lemma dijkstra_table:
  assumes nonneg: "nonneg_weights g" and s: "s \<in> set (node_list g)"
  shows "sound_table g s (dijkstra g s)"
    and "dijkstra g s v = Some (d, p) \<Longrightarrow> optimal g s v d"
    and "q \<noteq> [] \<Longrightarrow> hd q = s \<Longrightarrow> route_weight g q \<noteq> None \<Longrightarrow> dijkstra g s (last q) \<noteq> None"
proof -
  let ?D = "dijkstra g s"
  from dijkstra_loop_inv [OF nonneg search_inv_start [OF s]] obtain S where
    inv: "search_inv g s ?D S" and fin: "extract_min g ?D S = None"
    unfolding dijkstra_def by blast
  from inv have sound: "sound_table g s ?D"
    and src: "\<exists>p. ?D s = Some (0, p)"
    and opt: "\<forall>x\<in>set S. \<exists>d p. ?D x = Some (d, p) \<and> optimal g s x d"
    and rel: "\<forall>x\<in>set S. \<forall>v w. weight g x v = Some w \<longrightarrow>
            (\<exists>dv pv. ?D v = Some (dv, pv) \<and> dv \<le> tentative ?D x + w)"
    unfolding search_inv_def by blast+
  show "sound_table g s ?D" by (rule sound)
  have settled: "x \<in> set S" if "?D x = Some (dx, px)" for x dx px
  proof (rule ccontr)
    assume "x \<notin> set S"
    with sound_tableD(7) [OF sound that] that have "x \<in> set (frontier g ?D S)"
      by (simp add: frontier_def)
    with fin show False
      by (simp add: extract_min_None)
  qed
  show "optimal g s v d" if "?D v = Some (d, p)"
    using opt settled [OF that] that by fastforce
  have reach: "?D (last q) \<noteq> None"
    if "q \<noteq> []" "?D (hd q) \<noteq> None" "route_weight g q \<noteq> None" for q
    using that
  proof (induction q)
    case Nil
    then show ?case by simp
  next
    case (Cons x r)
    show ?case
    proof (cases r)
      case Nil
      with Cons.prems show ?thesis by simp
    next
      case (Cons y r')
      from Cons.prems(3) obtain w where w: "weight g x y = Some w"
        and rest: "route_weight g (y # r') \<noteq> None"
        unfolding Cons by (auto split: option.splits)
      from Cons.prems(2) obtain dx px where "?D x = Some (dx, px)" by auto
      from settled [OF this] rel w have "?D y \<noteq> None" by fastforce
      with Cons.IH rest Cons show ?thesis by simp
    qed
  qed
  show "q \<noteq> [] \<Longrightarrow> hd q = s \<Longrightarrow> route_weight g q \<noteq> None \<Longrightarrow> ?D (last q) \<noteq> None"
    using reach [of q] src by auto
qed

subsection \<open>The answers of the queries\<close>

lemma walk_snoc:
  assumes "walk g s u p" and "route_weight g p = Some d" and "weight g u x = Some w"
  shows "walk g s x (p @ [x]) \<and> route_weight g (p @ [x]) = Some (d + w)"
proof -
  from assms(1) have p: "p \<noteq> []" "hd p = s" "last p = u" "set p \<subseteq> set (node_list g)"
    unfolding walk_def by simp_all
  have "route_weight g (p @ [x]) = Some (d + w)"
    using p(1) assms(2) assms(3) p(3) by (intro route_weight_snoc) simp_all
  moreover have "x \<in> set (node_list g)"
    using weight_nodes [OF assms(3)] by simp
  ultimately show ?thesis
    using p unfolding walk_def by simp
qed

lemma relax_all_walk_table:
  assumes "walk_table g s D"
  shows "walk_table g s (relax_all g u D)"
proof (cases "D u")
  case None
  with assms show ?thesis by (simp add: relax_all_def)
next
  case (Some e)
  obtain d p where e: "e = (d, p)" by (cases e)
  from assms Some e have pu: "walk g s u p" "route_weight g p = Some d"
    unfolding walk_table_def by blast+
  have D': "relax_all g u D = fold (relax g u d p) (neighbors g u) D"
    by (simp add: relax_all_def Some e)
  show ?thesis
    unfolding walk_table_def D'
  proof (intro allI impI)
    fix x dx px
    assume n: "fold (relax g u d p) (neighbors g u) D x = Some (dx, px)"
    from fold_relax_cases [of g u d p "neighbors g u" D x]
    show "walk g s x px \<and> route_weight g px = Some dx"
    proof
      assume "fold (relax g u d p) (neighbors g u) D x = D x"
      with n assms show ?thesis unfolding walk_table_def by simp
    next
      assume "\<exists>w. weight g u x = Some w
                \<and> fold (relax g u d p) (neighbors g u) D x = Some (d + w, p @ [x])
                \<and> (\<forall>dx px. D x = Some (dx, px) \<longrightarrow> d + w < dx)"
      then obtain w where w: "weight g u x = Some w" and "dx = d + w" "px = p @ [x]"
        using n by auto
      with walk_snoc [OF pu w] show ?thesis by simp
    qed
  qed
qed

lemma dijkstra_loop_walk_table:
  "walk_table g s D \<Longrightarrow> walk_table g s (dijkstra_loop g D S)"
proof (induction g D S rule: dijkstra_loop.induct)
  case (1 g D S)
  show ?case
  proof (cases "extract_min g D S")
    case None
    with "1.prems" show ?thesis
      by (simp add: dijkstra_loop.simps [of g D S])
  next
    case (Some u)
    from "1.IH" [OF Some relax_all_walk_table [OF "1.prems"]] Some show ?thesis
      by (simp add: dijkstra_loop.simps [of g D S])
  qed
qed

lemma dijkstra_walk:
  assumes "s \<in> set (node_list g)" and "dijkstra g s v = Some (d, p)"
  shows "walk g s v p \<and> route_weight g p = Some d"
proof -
  have "walk_table g s [s \<mapsto> (0, [s])]"
    using assms(1) by (auto simp: walk_table_def walk_def split: if_splits)
  then have "walk_table g s (dijkstra g s)"
    unfolding dijkstra_def by (rule dijkstra_loop_walk_table)
  with assms(2) show ?thesis
    unfolding walk_table_def by blast
qed

lemma walk_nodes: "walk g s t q \<Longrightarrow> s \<in> set (node_list g) \<and> t \<in> set (node_list g)"
  unfolding walk_def by (metis hd_in_set last_in_set subsetD)

text \<open>The answers of the engine.\<close>

lemma shortest_path_Inr:
  assumes "shortest_path g a b = Inr (d, p)"
  shows "a \<in> set (node_list g)" and "dijkstra g a b = Some (d, p)"
    and "walk g a b p" and "route_weight g p = Some d"
proof -
  from assms show a: "a \<in> set (node_list g)" and D: "dijkstra g a b = Some (d, p)"
    by (auto simp: shortest_path_def split: if_splits option.splits)
  from dijkstra_walk [OF a D] show "walk g a b p" and "route_weight g p = Some d"
    by simp_all
qed

lemma shortest_path_optimal:
  assumes "nonneg_weights g" and "shortest_path g a b = Inr (d, p)"
  shows "optimal g a b d" and "butlast p = [] \<or> last (butlast p) \<noteq> b" and "0 \<le> d"
proof -
  note r = shortest_path_Inr [OF assms(2)]
  from dijkstra_table(2) [OF assms(1) r(1) r(2)] show "optimal g a b d" .
  from sound_tableD(6) [OF dijkstra_table(1) [OF assms(1) r(1)] r(2)]
  show "butlast p = [] \<or> last (butlast p) \<noteq> b" .
  from route_weight_nonneg [OF assms(1) r(4)] show "0 \<le> d" .
qed

lemma shortest_path_finds:
  assumes "nonneg_weights g" and "walk g a b q"
  shows "\<exists>d p. shortest_path g a b = Inr (d, p)"
proof -
  from assms(2) have q: "q \<noteq> []" "hd q = a" "last q = b" "route_weight g q \<noteq> None"
    unfolding walk_def by simp_all
  from walk_nodes [OF assms(2)] have n: "a \<in> set (node_list g)" "b \<in> set (node_list g)"
    by simp_all
  from dijkstra_table(3) [OF assms(1) n(1) q(1) q(2) q(4)] q(3)
  have "dijkstra g a b \<noteq> None" by simp
  with n show ?thesis
    by (auto simp: shortest_path_def)
qed

lemma shortest_path_errors:
  "shortest_path g a b = Inl e \<Longrightarrow> e = NodeNotFound \<or> e = Unreachable"
  by (auto simp: shortest_path_def split: if_splits option.splits)

lemma shortest_path_missing:
  "a \<notin> set (node_list g) \<or> b \<notin> set (node_list g) \<Longrightarrow> shortest_path g a b = Inl NodeNotFound"
  by (auto simp: shortest_path_def)

lemma shortest_path_no_walk:
  assumes "a \<in> set (node_list g)" and "b \<in> set (node_list g)" and "\<forall>q. \<not> walk g a b q"
  shows "shortest_path g a b = Inl Unreachable"
proof (cases "dijkstra g a b")
  case None
  with assms(1,2) show ?thesis by (simp add: shortest_path_def)
next
  case (Some e)
  obtain d p where "e = (d, p)" by (cases e)
  with Some dijkstra_walk [OF assms(1)] assms(3) show ?thesis by blast
qed

text \<open>
  Claim C3.  On a network whose weights are not negative, and for a target that a walk from
  the source reaches, both queries succeed.  The distance query returns a number \<open>d\<close> that
  is not negative, and the path query returns a route \<open>p\<close> through the network that starts
  with the source, ends with the target and whose consecutive edge weights sum to \<open>d\<close>; no
  walk from the source to the target is shorter than \<open>d\<close>.  So \<open>d\<close> is the least length of
  all such walks.
\<close>

theorem shortest_path_minimal:
  fixes network :: "string graph"
  assumes "nonneg_weights network" and "walk network source target q"
  shows "\<exists>d p. shortest_path_length network source target True = Inr (Distance d)
               \<and> shortest_path_length network source target False = Inr (Route p)
               \<and> shortest_path network source target = Inr (d, p)
               \<and> 0 \<le> d
               \<and> walk network source target p
               \<and> hd p = source \<and> last p = target
               \<and> route_weight network p = Some d
               \<and> (\<forall>q' d'. walk network source target q' \<and> route_weight network q' = Some d'
                     \<longrightarrow> d \<le> d')"
proof -
  from shortest_path_finds [OF assms] obtain d p where
    sp: "shortest_path network source target = Inr (d, p)"
    by blast
  note r = shortest_path_Inr [OF sp]
  note o = shortest_path_optimal [OF assms(1) sp]
  have "\<forall>q' d'. walk network source target q' \<and> route_weight network q' = Some d' \<longrightarrow> d \<le> d'"
    using o(1) unfolding optimal_def walk_def by blast
  moreover have "hd p = source \<and> last p = target"
    using r(3) unfolding walk_def by simp
  moreover have "shortest_path_length network source target True = Inr (Distance d)"
    and "shortest_path_length network source target False = Inr (Route p)"
    by (simp_all add: shortest_path_length_def nx_shortest_path_length_def nx_shortest_path_def sp)
  ultimately show ?thesis
    using sp r o(3) by blast
qed

text \<open>
  Witness for C3: on the scenario's network the walk along the edge of weight 9 reaches \<open>B\<close>
  from the depot; the queries return the distance 8 and the route through \<open>A\<close>.
\<close>

lemma tour_graph_nonneg: "nonneg_weights tour_graph"
  by (simp add: tour_graph_def nonneg_weights_def)

lemma tour_graph_direct: "walk tour_graph ''Auckland Airport'' ''B'' [''Auckland Airport'', ''B'']"
  by (simp add: walk_def tour_graph_def node_list_def weight_def weights_def joins_def)

theorem shortest_path_minimal_witness:
  "nonneg_weights tour_graph
   \<and> walk tour_graph ''Auckland Airport'' ''B'' [''Auckland Airport'', ''B'']
   \<and> shortest_path tour_graph ''Auckland Airport'' ''B''
        = Inr (8, [''Auckland Airport'', ''A'', ''B''])
   \<and> (\<exists>d p. shortest_path_length tour_graph ''Auckland Airport'' ''B'' True = Inr (Distance d)
          \<and> shortest_path_length tour_graph ''Auckland Airport'' ''B'' False = Inr (Route p)
          \<and> shortest_path tour_graph ''Auckland Airport'' ''B'' = Inr (d, p)
          \<and> 0 \<le> d
          \<and> walk tour_graph ''Auckland Airport'' ''B'' p
          \<and> hd p = ''Auckland Airport'' \<and> last p = ''B''
          \<and> route_weight tour_graph p = Some d
          \<and> (\<forall>q' d'. walk tour_graph ''Auckland Airport'' ''B'' q'
                       \<and> route_weight tour_graph q' = Some d' \<longrightarrow> d \<le> d'))"
proof -
  have "shortest_path tour_graph ''Auckland Airport'' ''B''
          = Inr (8, [''Auckland Airport'', ''A'', ''B''])"
    by (simp add: tour_graph_def engine_defs)
  with tour_graph_nonneg tour_graph_direct
    shortest_path_minimal [OF tour_graph_nonneg tour_graph_direct]
  show ?thesis by (intro conjI)
qed

section \<open>Failures of the queries in \<open>nearest_neighbor\<close>\<close>

lemma query_errors:
  "shortest_path_length network a b True = Inl e \<Longrightarrow> e = NodeNotFound \<or> e = Unreachable"
  using shortest_path_errors [of network a b]
  by (cases "shortest_path network a b")
     (auto simp: shortest_path_length_def nx_shortest_path_length_def)

lemma query_distance:
  "shortest_path_length network a b True = Inr r \<Longrightarrow> \<exists>d. r = Distance d"
  by (cases "shortest_path network a b")
     (auto simp: shortest_path_length_def nx_shortest_path_length_def)

lemma query_fails:
  "shortest_path network a b = Inl e \<Longrightarrow> shortest_path_length network a b distance = Inl e"
  by (simp add: shortest_path_length_def nx_shortest_path_length_def nx_shortest_path_def)

lemma all_dist_fails:
  assumes "h \<in> set hs" and "shortest_path_length network c h True = Inl e0"
  shows "\<exists>e. all_dist network c hs = Inl e \<and> (e = NodeNotFound \<or> e = Unreachable)"
  using assms(1)
proof (induction hs)
  case Nil
  then show ?case by simp
next
  case (Cons x hs)
  show ?case
  proof (cases "shortest_path_length network c x True")
    case (Inl e)
    with query_errors [OF Inl] show ?thesis by simp
  next
    case (Inr r)
    from query_distance [OF Inr] obtain d where r: "r = Distance d" by blast
    from Inr assms(2) have "x \<noteq> h" by auto
    with Cons.prems have "h \<in> set hs" by simp
    from Cons.IH [OF this] obtain e where "all_dist network c hs = Inl e"
      "e = NodeNotFound \<or> e = Unreachable" by blast
    with Inr r show ?thesis by simp
  qed
qed

lemma first_pass_fails:
  assumes "others \<noteq> []" and "all_dist network first others = Inl e"
  shows "nearest_neighbor network (first # others) = (Inl e, others)"
  using assms
  by (simp add: nearest_neighbor_def list_remove_def nn_loop.simps nn_body_def)

text \<open>
  Claim C7, as the code has it.  A query, for the distance or for the path, fails with
  NodeNotFound when its source or its target is not a node of the network, and with
  Unreachable when both are nodes and no walk joins them.  \<open>nearest_neighbor\<close> passes such
  a failure on when its list has at least one stop besides the depot: if some entry of the
  list is not a node, or cannot be reached from the depot, the call raises NodeNotFound or
  Unreachable in its first pass, and the caller's list is left without the depot.
\<close>

theorem failures_propagate:
  fixes network :: "string graph"
  shows
  "(a \<notin> set (node_list network) \<or> b \<notin> set (node_list network) \<longrightarrow>
      shortest_path_length network a b distance = Inl NodeNotFound)
   \<and> (a \<in> set (node_list network) \<and> b \<in> set (node_list network)
        \<and> (\<forall>q. \<not> walk network a b q) \<longrightarrow>
      shortest_path_length network a b distance = Inl Unreachable)
   \<and> (others \<noteq> []
        \<and> (\<exists>h\<in>set (first # others).
              h \<notin> set (node_list network) \<or> (\<forall>q. \<not> walk network first h q)) \<longrightarrow>
      (\<exists>e. nearest_neighbor network (first # others) = (Inl e, others)
            \<and> (e = NodeNotFound \<or> e = Unreachable)))"
proof (intro conjI impI)
  assume "a \<notin> set (node_list network) \<or> b \<notin> set (node_list network)"
  then show "shortest_path_length network a b distance = Inl NodeNotFound"
    by (intro query_fails shortest_path_missing)
next
  assume "a \<in> set (node_list network) \<and> b \<in> set (node_list network)
        \<and> (\<forall>q. \<not> walk network a b q)"
  then show "shortest_path_length network a b distance = Inl Unreachable"
    by (intro query_fails shortest_path_no_walk) simp_all
next
  assume hyp: "others \<noteq> []
        \<and> (\<exists>h\<in>set (first # others).
              h \<notin> set (node_list network) \<or> (\<forall>q. \<not> walk network first h q))"
  then obtain h where h: "h \<in> set (first # others)"
    "h \<notin> set (node_list network) \<or> (\<forall>q. \<not> walk network first h q)"
    by blast
  have "\<exists>h'\<in>set others. \<exists>e0. shortest_path_length network first h' True = Inl e0"
  proof (cases "first \<in> set (node_list network)")
    case False
    then have "shortest_path_length network first (hd others) True = Inl NodeNotFound"
      by (intro query_fails shortest_path_missing) simp
    with hyp show ?thesis
      by (metis hd_in_set)
  next
    case True
    then have "walk network first first [first]"
      by (simp add: walk_def)
    with h True have mem: "h \<in> set others"
      by auto
    show ?thesis
    proof (cases "h \<in> set (node_list network)")
      case False
      then have "shortest_path_length network first h True = Inl NodeNotFound"
        by (intro query_fails shortest_path_missing) simp
      with mem show ?thesis by blast
    next
      case inside: True
      with h(2) have "\<forall>q. \<not> walk network first h q" by simp
      with True inside have "shortest_path_length network first h True = Inl Unreachable"
        by (intro query_fails shortest_path_no_walk)
      with mem show ?thesis by blast
    qed
  qed
  then obtain h' e0 where "h' \<in> set others"
    "shortest_path_length network first h' True = Inl e0"
    by blast
  from all_dist_fails [OF this] obtain e where
    e: "all_dist network first others = Inl e" "e = NodeNotFound \<or> e = Unreachable"
    by blast
  from hyp have "others \<noteq> []" by simp
  from first_pass_fails [OF this e(1)] e(2)
  show "\<exists>e. nearest_neighbor network (first # others) = (Inl e, others)
            \<and> (e = NodeNotFound \<or> e = Unreachable)"
    by blast
qed

text \<open>
  Witness for C7: on the scenario's network \<open>X\<close> is not a node and the node \<open>C\<close> has no
  edge.
\<close>

lemma tour_graph_isolated: "\<forall>q. \<not> walk tour_graph ''Auckland Airport'' ''C'' q"
proof (intro allI notI)
  fix q
  assume "walk tour_graph ''Auckland Airport'' ''C'' q"
  from shortest_path_finds [OF tour_graph_nonneg this]
  show False
    by (simp add: tour_graph_def engine_defs)
qed

theorem failures_propagate_witness:
  "''X'' \<notin> set (node_list tour_graph)
   \<and> shortest_path_length tour_graph ''Auckland Airport'' ''X'' True = Inl NodeNotFound
   \<and> ''Auckland Airport'' \<in> set (node_list tour_graph)
   \<and> ''C'' \<in> set (node_list tour_graph)
   \<and> (\<forall>q. \<not> walk tour_graph ''Auckland Airport'' ''C'' q)
   \<and> shortest_path_length tour_graph ''Auckland Airport'' ''C'' True = Inl Unreachable
   \<and> (\<exists>e. nearest_neighbor tour_graph [''Auckland Airport'', ''A'', ''C'']
              = (Inl e, [''A'', ''C''])
          \<and> (e = NodeNotFound \<or> e = Unreachable))"
proof -
  have n: "''X'' \<notin> set (node_list tour_graph)"
    "''Auckland Airport'' \<in> set (node_list tour_graph)" "''C'' \<in> set (node_list tour_graph)"
    by (simp_all add: tour_graph_def node_list_def)
  note fp = failures_propagate [of "''Auckland Airport''" tour_graph _ True]
  have a: "shortest_path_length tour_graph ''Auckland Airport'' ''X'' True = Inl NodeNotFound"
    using fp [of "''X''"] n by blast
  have b: "shortest_path_length tour_graph ''Auckland Airport'' ''C'' True = Inl Unreachable"
    using failures_propagate [of "''Auckland Airport''" tour_graph "''C''" True] n
      tour_graph_isolated by blast
  have c: "\<exists>e. nearest_neighbor tour_graph [''Auckland Airport'', ''A'', ''C'']
              = (Inl e, [''A'', ''C''])
          \<and> (e = NodeNotFound \<or> e = Unreachable)"
    using failures_propagate [of _ tour_graph _ _ "[''A'', ''C'']" "''Auckland Airport''"]
      tour_graph_isolated by simp
  from n a tour_graph_isolated b c show ?thesis by (intro conjI)
qed

text \<open>
  Counterexample to C7 as stated: the only entry of the stop list \<open>[X]\<close> is missing from
  the network, and the call returns normally, without any query.
\<close>

theorem missing_stop_counterexample:
  "''X'' \<notin> set (node_list tour_graph)
   \<and> fst (nearest_neighbor tour_graph [''X'']) = Inr ([], [''X''], [])"
  by (simp add: tour_graph_def node_list_def nearest_neighbor_def list_remove_def nn_loop.simps)

section \<open>The length of the stitched path\<close>












end
